theory Spec2Isabelle
  imports Main
begin

section \<open>Fast univariate Lagrange evaluation of a message over a prime field\<close>

text \<open>
  The module \<^verbatim>\<open>src/lib/message-extensions/fast-univariate-lagrange.ts\<close> evaluates, at a
  field element \<open>r\<close>, the polynomial of degree below \<open>n\<close> whose values at \<open>0, ..., n-1\<close>
  are the character codes of a message of length \<open>n\<close>. It has three functions:
  \<^verbatim>\<open>getFastUnivariateLagrange\<close> (the evaluator), \<^verbatim>\<open>getNextLagrangeBasisPolynomialAtInput\<close>
  (one step of the recurrence on basis values) and \<^verbatim>\<open>getLagrangeBasisAt\<close> (the direct product
  for one basis value).

  The field type \<^verbatim>\<open>Field\<close> comes from the library \<^verbatim>\<open>o1js\<close>, which is not part of the
  sources. A field element is modelled as a value of an arbitrary type of class \<open>field\<close>;
  \<^verbatim>\<open>Field(k)\<close> of a JavaScript integer \<open>k\<close> is \<open>of_int k\<close> (the residue of \<open>k\<close>);
  \<^verbatim>\<open>add\<close>, \<^verbatim>\<open>sub\<close> and \<^verbatim>\<open>mul\<close> are the field operations; \<^verbatim>\<open>div\<close> raises on
  a zero divisor; \<^verbatim>\<open>toBigInt\<close>, which the comparisons read, is a parameter of the model.
  JavaScript numbers are modelled as \<open>int\<close> (every number of this module is a length or
  an index) and loop counters as \<open>nat\<close>.
\<close>

subsection \<open>Errors\<close>

text \<open>
  Every \<^verbatim>\<open>throw\<close> of the module is a value: the empty message (line 25), the two
  defensive checks of the recurrence (lines 88 and 95), the division of the field library
  by zero, and the read of an array or a string outside its bounds (JavaScript yields
  \<^verbatim>\<open>undefined\<close> there, on which the next method call raises).
\<close>

datatype error =
    EmptyMessage
  | InvalidIndex
  | DomainPoint
  | DivisionByZero
  | IndexOutOfRange

subsection \<open>The boundary with the field library\<close>

text \<open>
  Modelled from the spec: the field library is external. The spec asks of it
  \<^emph>\<open>add, sub, mul, div (via multiplicative inverse), compare-to-small-integer,
  construct-from-integer\<close>, over \<^emph>\<open>some fixed prime modulus\<close>, and says that division by
  a zero field element is undefined. \<open>primeField p toBigInt\<close> says that the field is the
  prime field of modulus \<open>p\<close> and that \<open>toBigInt\<close> gives the canonical representative in
  \<open>[0, p)\<close> of a field element.
\<close>

definition primeField :: "nat \<Rightarrow> ('a::field \<Rightarrow> nat) \<Rightarrow> bool" where
  "primeField p toBigInt \<longleftrightarrow>
     (\<forall>x. toBigInt x < p \<and> of_nat (toBigInt x) = x) \<and> (\<forall>k<p. toBigInt (of_nat k :: 'a) = k)"

text \<open>\<^verbatim>\<open>x.div(y)\<close>: the product of \<open>x\<close> with the inverse of \<open>y\<close>; raises when \<open>y\<close> is zero.\<close>

definition div_field :: "'a::field \<Rightarrow> 'a \<Rightarrow> error + 'a" where
  "div_field x y = (if y = 0 then Inl DivisionByZero else Inr (x / y))"

text \<open>
  \<^verbatim>\<open>r.lessThan(k)\<close>, \<^verbatim>\<open>r.lessThanOrEqual(k)\<close> and \<^verbatim>\<open>r.greaterThanOrEqual(k)\<close> for a
  JavaScript number \<open>k\<close>: \<open>k\<close> is first made a field element, then the representatives
  are compared.
\<close>

definition lessThan_field :: "('a::field \<Rightarrow> nat) \<Rightarrow> 'a \<Rightarrow> int \<Rightarrow> bool" where
  "lessThan_field toBigInt r k \<longleftrightarrow> toBigInt r < toBigInt (of_int k)"

definition lessThanOrEqual_field :: "('a::field \<Rightarrow> nat) \<Rightarrow> 'a \<Rightarrow> int \<Rightarrow> bool" where
  "lessThanOrEqual_field toBigInt r k \<longleftrightarrow> toBigInt r \<le> toBigInt (of_int k)"

definition greaterThanOrEqual_field :: "('a::field \<Rightarrow> nat) \<Rightarrow> 'a \<Rightarrow> int \<Rightarrow> bool" where
  "greaterThanOrEqual_field toBigInt r k \<longleftrightarrow> toBigInt (of_int k) \<le> toBigInt r"

subsection \<open>getLagrangeBasisAt (lines 121-135)\<close>

text \<open>
  The loop over \<open>j\<close> of lines 128-133, from the counter \<open>j\<close> and the running product
  \<open>result\<close>. \<^verbatim>\<open>interpolatingSet[j]\<close> is read under the guard \<open>j < length\<close>;
  \<^verbatim>\<open>interpolatingSet[i]\<close> is outside the array when \<open>i\<close> is not an index of it.
\<close>

function basisLoop :: "nat \<Rightarrow> 'a::field list \<Rightarrow> 'a \<Rightarrow> nat \<Rightarrow> 'a \<Rightarrow> error + 'a" where
  "basisLoop i interpolatingSet r j result =
     (if j < length interpolatingSet then
        (if i \<noteq> j then
           (if i < length interpolatingSet then
              (case div_field (result * (r - interpolatingSet ! j))
                              (interpolatingSet ! i - interpolatingSet ! j) of
                 Inl e \<Rightarrow> Inl e
               | Inr result' \<Rightarrow> basisLoop i interpolatingSet r (Suc j) result')
            else Inl IndexOutOfRange)
         else basisLoop i interpolatingSet r (Suc j) result)
      else Inr result)"
  by pat_completeness auto
termination
  by (relation "measure (\<lambda>(i, interpolatingSet, r, j, result). length interpolatingSet - j)") auto

declare basisLoop.simps [simp del]

definition getLagrangeBasisAt :: "nat \<Rightarrow> 'a::field list \<Rightarrow> 'a \<Rightarrow> error + 'a" where
  "getLagrangeBasisAt i interpolatingSet r = basisLoop i interpolatingSet r 0 1"

subsection \<open>getNextLagrangeBasisPolynomialAtInput (lines 81-104)\<close>

definition getNextLagrangeBasisPolynomialAtInput ::
  "('a::field \<Rightarrow> nat) \<Rightarrow> int \<Rightarrow> int \<Rightarrow> 'a \<Rightarrow> 'a \<Rightarrow> error + 'a" where
  "getNextLagrangeBasisPolynomialAtInput toBigInt i n r previousLagrangeBasis =
     (if i < 1 then Inl InvalidIndex
      else if greaterThanOrEqual_field toBigInt r 0 \<and> lessThanOrEqual_field toBigInt r (n - 1)
      then Inl DomainPoint
      else
        (case div_field (previousLagrangeBasis * (r - of_int (i - 1)) * of_int (- 1 * (n - i)))
                        (r - of_int i) of
           Inl e \<Rightarrow> Inl e
         | Inr q \<Rightarrow> div_field q (of_int i)))"

subsection \<open>getFastUnivariateLagrange (lines 22-62)\<close>

text \<open>
  \<^verbatim>\<open>asciiToNumber\<close> is imported from \<^verbatim>\<open>../util.ts\<close>, which is not part of the sources:
  it is a parameter of the model, a total function from a character to its numeric code.

  The loop of lines 44-59, from the counter \<open>i\<close>, the running sum \<open>result\<close> and the basis
  value \<open>currentLagrangeBasis\<close>.
\<close>

function sumLoop ::
  "('a::field \<Rightarrow> nat) \<Rightarrow> (char \<Rightarrow> int) \<Rightarrow> string \<Rightarrow> 'a \<Rightarrow> nat \<Rightarrow> 'a \<Rightarrow> 'a \<Rightarrow> error + 'a" where
  "sumLoop toBigInt asciiToNumber message r i result currentLagrangeBasis =
     (if i < length message then
        (let coefficient = of_int (asciiToNumber (message ! i));
             result' = result + coefficient * currentLagrangeBasis
         in if int i < int (length message) - 1 then
              (case getNextLagrangeBasisPolynomialAtInput toBigInt (int i + 1)
                      (int (length message)) r currentLagrangeBasis of
                 Inl e \<Rightarrow> Inl e
               | Inr next \<Rightarrow> sumLoop toBigInt asciiToNumber message r (Suc i) result' next)
            else sumLoop toBigInt asciiToNumber message r (Suc i) result' currentLagrangeBasis)
      else Inr result)"
  by pat_completeness auto
termination
  by (relation "measure (\<lambda>(toBigInt, asciiToNumber, message, r, i, result, b). length message - i)")
     auto

declare sumLoop.simps [simp del]

definition getFastUnivariateLagrange ::
  "('a::field \<Rightarrow> nat) \<Rightarrow> (char \<Rightarrow> int) \<Rightarrow> string \<Rightarrow> 'a \<Rightarrow> error + 'a" where
  "getFastUnivariateLagrange toBigInt asciiToNumber message r =
     (let n = length message in
      if n = 0 then Inl EmptyMessage
      else if lessThan_field toBigInt r (int n) then
        (let index = toBigInt r in
         if index < length message then Inr (of_int (asciiToNumber (message ! index)))
         else Inl IndexOutOfRange)
      else
        (let interpolatingSet = map (\<lambda>index. of_int (int index)) [0..<n] in
         case getLagrangeBasisAt 0 interpolatingSet r of
           Inl e \<Rightarrow> Inl e
         | Inr currentLagrangeBasis \<Rightarrow>
             sumLoop toBigInt asciiToNumber message r 0 0 currentLagrangeBasis))"

subsection \<open>The reference definition of the spec\<close>

text \<open>
  The spec's reference definition, in the spec's words:
  \<open>P(r) = \<Sum>\<^sub>i c\<^sub>i \<cdot> \<Prod>\<^sub>j\<^sub>\<noteq>\<^sub>i (r - j) / (i - j)\<close>, with \<open>i\<close> and \<open>j\<close> over \<open>0, ..., n-1\<close> and
  \<open>c\<^sub>i\<close> the code of the \<open>i\<close>-th symbol. \<open>lagrangeBasisReference n i r\<close> is the inner
  product, the basis polynomial \<open>L\<^sub>i\<close> at \<open>r\<close>. Both are written from the spec, not from
  the code, and are what the code is compared with.
\<close>

definition lagrangeBasisReference :: "nat \<Rightarrow> nat \<Rightarrow> 'a::field \<Rightarrow> 'a" where
  "lagrangeBasisReference n i r =
     prod_list (map (\<lambda>j. (r - of_nat j) / (of_nat i - of_nat j)) (filter (\<lambda>j. j \<noteq> i) [0..<n]))"

definition lagrangeReference :: "(char \<Rightarrow> int) \<Rightarrow> string \<Rightarrow> 'a::field \<Rightarrow> 'a" where
  "lagrangeReference asciiToNumber message r =
     sum_list (map (\<lambda>i. of_int (asciiToNumber (message ! i)) *
                          lagrangeBasisReference (length message) i r)
                   [0..<length message])"

text \<open>
  The basis polynomial over any interpolation points \<open>f 0, ..., f (n-1)\<close>, as the comment
  of \<^verbatim>\<open>getLagrangeBasisAt\<close> defines it: \<open>L\<^sub>i(x) = \<Prod>\<^sub>j\<^sub>\<noteq>\<^sub>i (x - x\<^sub>j) / (x\<^sub>i - x\<^sub>j)\<close>.
\<close>

definition lagrangeBasisOver :: "(nat \<Rightarrow> 'a::field) \<Rightarrow> nat \<Rightarrow> nat \<Rightarrow> 'a \<Rightarrow> 'a" where
  "lagrangeBasisOver f n i x = (\<Prod>j\<in>{..<n} - {i}. (x - f j) / (f i - f j))"

subsection \<open>The basis values of one sweep\<close>

text \<open>
  The values that \<^verbatim>\<open>currentLagrangeBasis\<close> takes in one run of the loop of lines 44-59,
  in order: the value it enters iteration \<open>i\<close> with, then those of the later iterations.
  The recursion is the one of \<open>sumLoop\<close>, keeping the basis values instead of the sum.
\<close>

function basisValues :: "('a::field \<Rightarrow> nat) \<Rightarrow> nat \<Rightarrow> 'a \<Rightarrow> nat \<Rightarrow> 'a \<Rightarrow> error + 'a list" where
  "basisValues toBigInt n r i currentLagrangeBasis =
     (if i < n then
        (if int i < int n - 1 then
           (case getNextLagrangeBasisPolynomialAtInput toBigInt (int i + 1) (int n) r
                   currentLagrangeBasis of
              Inl e \<Rightarrow> Inl e
            | Inr next \<Rightarrow>
                (case basisValues toBigInt n r (Suc i) next of
                   Inl e \<Rightarrow> Inl e
                 | Inr rest \<Rightarrow> Inr (currentLagrangeBasis # rest)))
         else
           (case basisValues toBigInt n r (Suc i) currentLagrangeBasis of
              Inl e \<Rightarrow> Inl e
            | Inr rest \<Rightarrow> Inr (currentLagrangeBasis # rest)))
      else Inr [])"
  by pat_completeness auto
termination
  by (relation "measure (\<lambda>(toBigInt, n, r, i, b). n - i)") auto

declare basisValues.simps [simp del]

text \<open>
  The basis values of the sweep that the evaluator runs on a message of length \<open>n\<close> at
  \<open>r\<close>: the base case of line 41, then the recurrence.
\<close>

definition sweepBasisValues :: "('a::field \<Rightarrow> nat) \<Rightarrow> nat \<Rightarrow> 'a \<Rightarrow> error + 'a list" where
  "sweepBasisValues toBigInt n r =
     (case getLagrangeBasisAt 0 (map (\<lambda>index. of_int (int index)) [0..<n]) r of
        Inl e \<Rightarrow> Inl e
      | Inr currentLagrangeBasis \<Rightarrow> basisValues toBigInt n r 0 currentLagrangeBasis)"

subsection \<open>A concrete prime field\<close>

text \<open>
  The integers modulo the prime 257, as an instance of the field interface on which the
  definitions above run: every byte is its own code there. The inverse is found by search.
\<close>

typedef gf257 = "{0..<257::int}"
  by auto

setup_lifting type_definition_gf257

definition inv257 :: "int \<Rightarrow> int" where
  "inv257 x = (case find (\<lambda>y. x * y mod 257 = 1) [1..256] of Some y \<Rightarrow> y | None \<Rightarrow> 0)"

instantiation gf257 :: field
begin

lift_definition zero_gf257 :: gf257 is 0
  by simp

lift_definition one_gf257 :: gf257 is 1
  by simp

lift_definition plus_gf257 :: "gf257 \<Rightarrow> gf257 \<Rightarrow> gf257" is "\<lambda>x y. (x + y) mod 257"
  by simp

lift_definition uminus_gf257 :: "gf257 \<Rightarrow> gf257" is "\<lambda>x. (- x) mod 257"
  by simp

lift_definition minus_gf257 :: "gf257 \<Rightarrow> gf257 \<Rightarrow> gf257" is "\<lambda>x y. (x - y) mod 257"
  by simp

lift_definition times_gf257 :: "gf257 \<Rightarrow> gf257 \<Rightarrow> gf257" is "\<lambda>x y. (x * y) mod 257"
  by simp

lift_definition inverse_gf257 :: "gf257 \<Rightarrow> gf257" is inv257
  by (auto simp: inv257_def find_Some_iff split: option.splits)

lift_definition divide_gf257 :: "gf257 \<Rightarrow> gf257 \<Rightarrow> gf257" is "\<lambda>x y. (x * inv257 y) mod 257"
  by simp

instance
proof
  have prime257: "\<forall>m\<in>{2..<257::nat}. \<not> m dvd 257"
    by code_simp
  have coprime257: "gcd x 257 = 1" if "0 < x" "x < 257" for x :: int
  proof (rule ccontr)
    assume ne: "gcd x 257 \<noteq> 1"
    let ?g = "gcd x 257"
    have "?g dvd x" by simp
    with that have le: "?g \<le> x" by (intro zdvd_imp_le) auto
    have "?g \<noteq> 0" by simp
    with ne have ge: "2 \<le> ?g" using gcd_ge_0_int[of x 257] by linarith
    have "int (nat ?g) dvd int 257" using ge by simp
    then have "nat ?g dvd 257" unfolding int_dvd_int_iff .
    moreover have "2 \<le> nat ?g \<and> nat ?g < 257" using ge le that by linarith
    then have "nat ?g \<in> {2..<257}" by simp
    ultimately show False using prime257 by blast
  qed
  have inv257_correct: "inv257 x * x mod 257 = 1" if range: "0 < x" "x < 257" for x :: int
  proof -
    obtain u v where uv: "u * x + v * 257 = 1"
      using bezout_int[of x 257] coprime257[OF range] by auto
    let ?y = "u mod 257"
    have "(u * x + v * 257) mod 257 = 1" using uv by simp
    then have 1: "x * ?y mod 257 = 1"
      by (simp add: mod_mult_right_eq mult.commute)
    then have "?y \<noteq> 0" by auto
    then have "?y \<in> set [1..256]"
      using pos_mod_bound[of 257 u] pos_mod_sign[of 257 u] by auto
    with 1 have "find (\<lambda>y. x * y mod 257 = 1) [1..256] \<noteq> None"
      by (auto simp: find_None_iff)
    then obtain y where y: "find (\<lambda>y. x * y mod 257 = 1) [1..256] = Some y" by auto
    then have "x * y mod 257 = 1" unfolding find_Some_iff by blast
    moreover have "inv257 x = y" using y by (simp add: inv257_def)
    ultimately show ?thesis by (simp add: mult.commute)
  qed
  fix a b c :: gf257
  show "a * b * c = a * (b * c)" by transfer (simp add: mod_simps mult.assoc)
  show "a * b = b * a" by transfer (simp add: mult.commute)
  show "1 * a = a" by transfer simp
  show "a + b + c = a + (b + c)" by transfer (simp add: mod_simps add.assoc)
  show "a + b = b + a" by transfer (simp add: add.commute)
  show "0 + a = a" by transfer simp
  show "- a + a = 0" by transfer (simp add: mod_simps)
  show "a - b = a + - b" by transfer (simp add: mod_simps)
  show "(a + b) * c = a * c + b * c" by transfer (simp add: mod_simps distrib_right)
  show "(0::gf257) \<noteq> 1" by transfer simp
  show "a \<noteq> 0 \<Longrightarrow> inverse a * a = 1" by transfer (simp add: inv257_correct)
  show "divide a b = a * inverse b" by transfer simp
  show "inverse (0::gf257) = 0"
    by transfer (auto simp: inv257_def find_Some_iff split: option.splits)
qed

end

instantiation gf257 :: equal
begin

lift_definition equal_gf257 :: "gf257 \<Rightarrow> gf257 \<Rightarrow> bool" is "(=)" .

instance
  by standard (transfer, simp)

end

text \<open>\<^verbatim>\<open>toBigInt\<close> on this field: the representative itself.\<close>

lift_definition toBigInt257 :: "gf257 \<Rightarrow> nat" is nat .

text \<open>
  Modelled from the spec: \<^verbatim>\<open>asciiToNumber\<close> of \<^verbatim>\<open>../util.ts\<close> is not part of the sources.
  The scenarios of the spec give the message \<^verbatim>\<open>AB\<close> the codes 65 and 66 and \<^verbatim>\<open>Z\<close> the code
  90, the character codes; \<open>charCode\<close> is the encoder of the examples below. The theorems
  hold of any encoder.
\<close>

definition charCode :: "char \<Rightarrow> int" where
  "charCode c = int (of_char c)"

section \<open>Properties of the field interface\<close>

lemma Rep_gf257_of_nat: "Rep_gf257 (of_nat k) = int k mod 257"
proof (induction k)
  case 0
  show ?case by (simp add: zero_gf257.rep_eq)
next
  case (Suc k)
  then show ?case
    by (simp add: plus_gf257.rep_eq one_gf257.rep_eq mod_simps add.commute)
qed

lemma primeField_gf257: "primeField 257 toBigInt257"
  unfolding primeField_def
proof (intro conjI allI impI)
  fix x :: gf257
  have r: "0 \<le> Rep_gf257 x \<and> Rep_gf257 x < 257"
    using Rep_gf257[of x] by simp
  then show "toBigInt257 x < 257"
    unfolding toBigInt257.rep_eq by linarith
  have "Rep_gf257 (of_nat (toBigInt257 x)) = Rep_gf257 x"
    unfolding toBigInt257.rep_eq Rep_gf257_of_nat using r by simp
  then show "of_nat (toBigInt257 x) = x"
    by (simp add: Rep_gf257_inject)
next
  fix k :: nat
  assume "k < 257"
  then show "toBigInt257 (of_nat k) = k"
    by (simp add: toBigInt257.rep_eq Rep_gf257_of_nat)
qed

lemma primeField_bound: "primeField p tb \<Longrightarrow> tb x < p"
  by (simp add: primeField_def)

lemma primeField_repr: "primeField p tb \<Longrightarrow> of_nat (tb x) = x"
  by (simp add: primeField_def)

lemma primeField_small: "primeField p tb \<Longrightarrow> k < p \<Longrightarrow> tb (of_nat k) = k"
  by (simp add: primeField_def)

text \<open>A field has two elements at least, so the modulus is above 1.\<close>

lemma primeField_gt1:
  fixes tb :: "'a::field \<Rightarrow> nat"
  assumes pf: "primeField p tb"
  shows "1 < p"
proof (rule ccontr)
  assume "\<not> 1 < p"
  moreover have "tb (1::'a) < p" "tb (0::'a) < p"
    using pf by (rule primeField_bound)+
  ultimately have "tb (1::'a) = tb (0::'a)" by simp
  then have "of_nat (tb (1::'a)) = (of_nat (tb (0::'a)) :: 'a)" by simp
  then have "(1::'a) = 0" unfolding primeField_repr[OF pf] .
  then show False by simp
qed

text \<open>The modulus is the characteristic: \<open>p\<close> itself is zero in the field.\<close>

lemma primeField_char:
  fixes tb :: "'a::field \<Rightarrow> nat"
  assumes pf: "primeField p tb"
  shows "(of_nat p :: 'a) = 0"
proof -
  let ?m = "tb (of_nat p :: 'a)"
  have m: "?m < p" using pf by (rule primeField_bound)
  have eq: "(of_nat ?m :: 'a) = of_nat p" using pf by (rule primeField_repr)
  have z: "(of_nat (p - ?m) :: 'a) = 0" using m eq by simp
  have "?m = 0"
  proof (rule ccontr)
    assume "?m \<noteq> 0"
    then have lt: "p - ?m < p" using m by simp
    have "tb (of_nat (p - ?m) :: 'a) = p - ?m" using pf lt by (rule primeField_small)
    moreover have "tb (of_nat 0 :: 'a) = 0" using pf m by (intro primeField_small) auto
    ultimately show False using z m by simp
  qed
  with eq show ?thesis by simp
qed

text \<open>\<^verbatim>\<open>Field(k).toBigInt()\<close> of a natural number \<open>k\<close> is \<open>k mod p\<close>.\<close>

lemma primeField_of_nat:
  fixes tb :: "'a::field \<Rightarrow> nat"
  assumes pf: "primeField p tb"
  shows "tb (of_nat k :: 'a) = k mod p"
proof -
  have "(of_nat k :: 'a) = of_nat (p * (k div p) + k mod p)" by simp
  also have "\<dots> = of_nat p * of_nat (k div p) + of_nat (k mod p)"
    unfolding of_nat_add of_nat_mult ..
  also have "\<dots> = of_nat (k mod p)" by (simp add: primeField_char[OF pf])
  finally have "(of_nat k :: 'a) = of_nat (k mod p)" .
  moreover have "k mod p < p" using primeField_gt1[OF pf] by simp
  ultimately show ?thesis using primeField_small[OF pf] by simp
qed

lemma lessThan_field_length:
  assumes "primeField p tb"
  shows "lessThan_field tb r (int n) \<longleftrightarrow> tb r < n mod p"
  by (simp add: lessThan_field_def primeField_of_nat[OF assms])

section \<open>Lagrange basis polynomials over distinct points\<close>

text \<open>
  Adding a point \<open>f n\<close> to the points \<open>f 0, ..., f (n-1)\<close> multiplies each old basis
  polynomial by one factor and adds one basis polynomial.
\<close>

lemma lagrangeBasisOver_Suc_lt:
  assumes "i < n"
  shows "lagrangeBasisOver f (Suc n) i x = lagrangeBasisOver f n i x * ((x - f n) / (f i - f n))"
proof -
  have "{..<Suc n} - {i} = insert n ({..<n} - {i})" using assms by auto
  then show ?thesis by (simp add: lagrangeBasisOver_def mult.commute)
qed

lemma lagrangeBasisOver_Suc_last:
  "lagrangeBasisOver f (Suc n) n x = (\<Prod>j<n. (x - f j) / (f n - f j))"
proof -
  have "{..<Suc n} - {n} = {..<n}" by auto
  then show ?thesis by (simp add: lagrangeBasisOver_def)
qed

lemma lagrangeBasisOver_shift:
  assumes i: "i < n" and inj: "inj_on f {..n}"
  shows "lagrangeBasisOver f n i x * (x - f i) =
         (\<Prod>j<n. (x - f j) / (f n - f j)) * (lagrangeBasisOver f n i (f n) * (f n - f i))"
proof -
  let ?S = "{..<n} - {i}"
  let ?g = "\<lambda>j. (x - f j) / (f n - f j)"
  let ?h = "\<lambda>j. (f n - f j) / (f i - f j)"
  have ne: "f n \<noteq> f j" if "j < n" for j
    using inj_onD[OF inj, of n j] that by auto
  have "prod ?g {..<n} = ?g i * prod ?g ?S"
    by (rule prod.remove) (use i in auto)
  moreover have "prod ?g ?S * prod ?h ?S = lagrangeBasisOver f n i x"
    unfolding lagrangeBasisOver_def prod.distrib[symmetric]
    by (rule prod.cong) (auto simp: ne)
  ultimately have "prod ?g {..<n} * (prod ?h ?S * (f n - f i)) =
      (?g i * (f n - f i)) * lagrangeBasisOver f n i x"
    by (simp add: mult_ac)
  also have "?g i * (f n - f i) = x - f i" using ne[OF i] by simp
  finally show ?thesis by (simp add: lagrangeBasisOver_def mult.commute)
qed

lemma lagrangeBasisOver_sum:
  assumes "0 < n" and "inj_on f {..<n}" and "x \<notin> f ` {..<n}"
  shows "(\<Sum>i<n. lagrangeBasisOver f n i x) = 1"
  using assms
proof (induction n arbitrary: x)
  case 0
  then show ?case by simp
next
  case (Suc n)
  show ?case
  proof (cases "n = 0")
    case True
    then show ?thesis by (simp add: lagrangeBasisOver_def)
  next
    case False
    then have pos: "0 < n" by simp
    have inj: "inj_on f {..n}" using Suc.prems(2) by (simp add: lessThan_Suc_atMost)
    then have inj': "inj_on f {..<n}" by (rule inj_on_subset) auto
    have xn: "x \<notin> f ` {..<n}" using Suc.prems(3) by auto
    have fn: "f n \<notin> f ` {..<n}"
    proof
      assume "f n \<in> f ` {..<n}"
      then obtain j where "j < n" "f n = f j" by auto
      then show False using inj_onD[OF inj, of n j] by auto
    qed
    let ?Q = "\<Prod>j<n. (x - f j) / (f n - f j)"
    have sx: "(\<Sum>i<n. lagrangeBasisOver f n i x) = 1"
      using Suc.IH[OF pos inj' xn] .
    have sn: "(\<Sum>i<n. lagrangeBasisOver f n i (f n)) = 1"
      using Suc.IH[OF pos inj' fn] .
    have step: "lagrangeBasisOver f (Suc n) i x =
        lagrangeBasisOver f n i x - ?Q * lagrangeBasisOver f n i (f n)" if i: "i < n" for i
    proof -
      have d: "f i - f n \<noteq> 0" using inj_onD[OF inj, of i n] i by auto
      have "lagrangeBasisOver f (Suc n) i x =
          lagrangeBasisOver f n i x * ((x - f n) / (f i - f n))"
        using i by (rule lagrangeBasisOver_Suc_lt)
      also have "(x - f n) / (f i - f n) = 1 + (x - f i) / (f i - f n)"
        using d by (simp add: field_simps)
      also have "lagrangeBasisOver f n i x * (1 + (x - f i) / (f i - f n)) =
          lagrangeBasisOver f n i x + (lagrangeBasisOver f n i x * (x - f i)) / (f i - f n)"
        by (simp add: algebra_simps)
      also have "lagrangeBasisOver f n i x * (x - f i) =
          ?Q * (lagrangeBasisOver f n i (f n) * (f n - f i))"
        using i inj by (rule lagrangeBasisOver_shift)
      also have "?Q * (lagrangeBasisOver f n i (f n) * (f n - f i)) / (f i - f n) =
          - (?Q * lagrangeBasisOver f n i (f n))"
        using d by (simp add: field_simps)
      finally show ?thesis by simp
    qed
    have "(\<Sum>i<Suc n. lagrangeBasisOver f (Suc n) i x) =
        (\<Sum>i<n. lagrangeBasisOver f (Suc n) i x) + lagrangeBasisOver f (Suc n) n x"
      by simp
    also have "(\<Sum>i<n. lagrangeBasisOver f (Suc n) i x) =
        (\<Sum>i<n. lagrangeBasisOver f n i x - ?Q * lagrangeBasisOver f n i (f n))"
      by (rule sum.cong) (auto simp: step)
    also have "\<dots> = 1 - ?Q"
      by (simp add: sum_subtractf sum_distrib_left[symmetric] sx sn)
    also have "lagrangeBasisOver f (Suc n) n x = ?Q"
      by (rule lagrangeBasisOver_Suc_last)
    finally show ?thesis by simp
  qed
qed

section \<open>The domain short-circuit\<close>

lemma shortCircuit_value:
  assumes pf: "primeField p tb" and len: "length message < p" and lt: "tb r < length message"
  shows "getFastUnivariateLagrange tb enc message r = Inr (of_int (enc (message ! tb r)))"
  using len lt
  by (auto simp: getFastUnivariateLagrange_def Let_def lessThan_field_length[OF pf])

text \<open>
  Claim C8. For every field element \<open>r\<close>, the evaluator applied to the empty message
  fails with the empty-message error. The check is the first statement of the function:
  the result holds for any \<open>toBigInt\<close> and any encoder, so no field operation and no
  comparison takes part in it.
\<close>

theorem getFastUnivariateLagrange_empty:
  "getFastUnivariateLagrange toBigInt asciiToNumber [] r = Inl EmptyMessage"
  by (simp add: getFastUnivariateLagrange_def)

text \<open>
  Claim C2. For a message of length \<open>n \<ge> 1\<close> and a field element \<open>r\<close> whose unsigned
  value is below \<open>n\<close>, the evaluator returns the field element of the code of the symbol
  at index \<open>r\<close>: the result is the lookup of lines 29-30 and nothing of the sweep. The
  length of a JavaScript string is below \<open>2\<^sup>5\<^sup>3\<close> and the modulus of the field library
  has 255 bits, so \<open>length message < p\<close> holds of every message the code can receive.
\<close>

theorem getFastUnivariateLagrange_shortCircuit:
  assumes "primeField p toBigInt"
    and "message \<noteq> []"
    and "length message < p"
    and "toBigInt r < length message"
  shows "getFastUnivariateLagrange toBigInt asciiToNumber message r =
         Inr (of_int (asciiToNumber (message ! toBigInt r)))"
  using assms
  by (auto simp: getFastUnivariateLagrange_def Let_def lessThan_field_length)

theorem getFastUnivariateLagrange_shortCircuit_witness:
  "primeField 257 toBigInt257 \<and> ''AB'' \<noteq> [] \<and> length ''AB'' < 257 \<and>
   toBigInt257 1 < length ''AB'' \<and>
   getFastUnivariateLagrange toBigInt257 charCode ''AB'' 1 = Inr 66"
proof -
  have h: "toBigInt257 1 < length ''AB''"
    by code_simp
  have v: "(of_int (charCode (''AB'' ! toBigInt257 1)) :: gf257) = 66"
    by code_simp
  show ?thesis
    using getFastUnivariateLagrange_shortCircuit[OF primeField_gf257, of "''AB''" 1 charCode]
      h v primeField_gf257
    by simp
qed

section \<open>The base case and the interpolation points\<close>

lemma lagrangeBasisReference_eq:
  "lagrangeBasisReference n i r = lagrangeBasisOver of_nat n i r"
proof -
  have "set (filter (\<lambda>j. j \<noteq> i) [0..<n]) = {..<n} - {i}" by auto
  moreover have "distinct (filter (\<lambda>j. j \<noteq> i) [0..<n])" by simp
  ultimately show ?thesis
    unfolding lagrangeBasisReference_def lagrangeBasisOver_def
    using prod.distinct_set_conv_list[of "filter (\<lambda>j. j \<noteq> i) [0..<n]"
        "\<lambda>j. (r - of_nat j) / (of_nat i - of_nat j)"]
    by simp
qed

lemma lagrangeReference_eq:
  "lagrangeReference enc message r =
   (\<Sum>i<length message. of_int (enc (message ! i)) * lagrangeBasisReference (length message) i r)"
  unfolding lagrangeReference_def
  by (simp add: interv_sum_list_conv_sum_set_nat atLeast0LessThan)

lemma primeField_inj_on:
  fixes tb :: "'a::field \<Rightarrow> nat"
  assumes pf: "primeField p tb" and "n \<le> p"
  shows "inj_on (of_nat :: nat \<Rightarrow> 'a) {..<n}"
proof (rule inj_onI)
  fix a b :: nat
  assume a: "a \<in> {..<n}" and b: "b \<in> {..<n}" and eq: "(of_nat a :: 'a) = of_nat b"
  have "a < p" using a assms(2) by simp
  then have ta: "tb (of_nat a :: 'a) = a" by (rule primeField_small[OF pf])
  have "b < p" using b assms(2) by simp
  then have tb: "tb (of_nat b :: 'a) = b" by (rule primeField_small[OF pf])
  show "a = b" using ta tb eq by metis
qed

lemma primeField_outside:
  fixes tb :: "'a::field \<Rightarrow> nat"
  assumes pf: "primeField p tb" and out: "n \<le> tb r"
  shows "n < p" and "r \<notin> of_nat ` {..<n}"
proof -
  show np: "n < p" using out primeField_bound[OF pf, of r] by simp
  show "r \<notin> of_nat ` {..<n}"
  proof
    assume "r \<in> of_nat ` {..<n}"
    then obtain j where j: "j < n" "r = of_nat j" by auto
    then have "tb r = j" using primeField_small[OF pf, of j] np by simp
    with j out show False by simp
  qed
qed

lemma basisLoop_value:
  assumes "i < length xs" and "distinct xs"
  shows "basisLoop i xs r j result =
         Inr (result * (\<Prod>k\<in>{j..<length xs} - {i}. (r - xs ! k) / (xs ! i - xs ! k)))"
  using assms
proof (induction i xs r j result rule: basisLoop.induct)
  case (1 i xs r j result)
  show ?case
  proof (cases "j < length xs")
    case False
    then show ?thesis by (simp add: basisLoop.simps[of i xs r j result])
  next
    case jlt: True
    show ?thesis
    proof (cases "i = j")
      case True
      have set: "{j..<length xs} - {i} = {Suc j..<length xs} - {i}" using True by auto
      have "basisLoop i xs r j result = basisLoop i xs r (Suc j) result"
        using jlt True by (subst basisLoop.simps) simp
      also have "\<dots> = Inr (result *
            (\<Prod>k\<in>{Suc j..<length xs} - {i}. (r - xs ! k) / (xs ! i - xs ! k)))"
        using "1.IH"(2) jlt True "1.prems" by blast
      finally show ?thesis unfolding set .
    next
      case False
      have ne: "xs ! i - xs ! j \<noteq> 0"
        using False "1.prems" jlt by (simp add: nth_eq_iff_index_eq)
      have set: "{j..<length xs} - {i} = insert j ({Suc j..<length xs} - {i})"
        using False jlt by auto
      have "basisLoop i xs r j result =
            basisLoop i xs r (Suc j) (result * (r - xs ! j) / (xs ! i - xs ! j))"
        using jlt False "1.prems" ne
        by (simp add: basisLoop.simps[of i xs r j result] div_field_def)
      also have "\<dots> = Inr (result * (r - xs ! j) / (xs ! i - xs ! j) *
            (\<Prod>k\<in>{Suc j..<length xs} - {i}. (r - xs ! k) / (xs ! i - xs ! k)))"
        using "1.IH"(1)[OF jlt False "1.prems"(1) _ "1.prems",
            of "result * (r - xs ! j) / (xs ! i - xs ! j)"] ne
        by (simp add: div_field_def)
      also have "\<dots> = Inr (result * (\<Prod>k\<in>{j..<length xs} - {i}. (r - xs ! k) / (xs ! i - xs ! k)))"
        unfolding set by (simp add: mult_ac)
      finally show ?thesis .
    qed
  qed
qed

lemma getLagrangeBasisAt_value:
  fixes tb :: "'a::field \<Rightarrow> nat"
  assumes pf: "primeField p tb" and "i < n" and "n \<le> p"
  shows "getLagrangeBasisAt i (map (\<lambda>index. of_int (int index)) [0..<n]) (r::'a) =
         Inr (lagrangeBasisReference n i r)"
proof -
  let ?xs = "map (\<lambda>index. of_int (int index) :: 'a) [0..<n]"
  have d: "distinct ?xs"
    using primeField_inj_on[OF pf assms(3)] by (simp add: distinct_map atLeast0LessThan)
  have "(\<Prod>k\<in>{0..<length ?xs} - {i}. (r - ?xs ! k) / (?xs ! i - ?xs ! k)) =
        lagrangeBasisOver of_nat n i r"
    unfolding lagrangeBasisOver_def using assms(2)
    by (intro prod.cong) (auto simp: atLeast0LessThan)
  then show ?thesis
    unfolding getLagrangeBasisAt_def lagrangeBasisReference_eq
    using basisLoop_value[of i ?xs r 0 1] d assms(2) by simp
qed

section \<open>The recurrence on consecutive basis polynomials\<close>

text \<open>
  Over the points \<open>0, ..., n-1\<close> the denominators of \<open>L\<^sub>i\<close> and \<open>L\<^sub>i\<^sub>-\<^sub>1\<close> share all factors
  but one each, which gives the ratio that the recurrence multiplies by.
\<close>

lemma denominators_step:
  fixes dummy :: "'a::field"
  assumes i: "1 \<le> i" "i < n"
  shows "(\<Prod>j\<in>{..<n} - {i}. (of_nat i - of_nat j :: 'a)) * (- of_nat (n - i)) =
         (\<Prod>j\<in>{..<n} - {i - 1}. (of_nat (i - 1) - of_nat j)) * of_nat i"
proof -
  let ?g = "\<lambda>k. (of_nat i - of_nat k :: 'a)"
  let ?K = "{1..<n} - {i}"
  have "(\<Prod>j\<in>{..<n} - {i - 1}. (of_nat (i - 1) - of_nat j :: 'a)) =
        (\<Prod>j\<in>{..<n} - {i - 1}. ?g (Suc j))"
    using i by (intro prod.cong) auto
  also have "\<dots> = prod ?g (Suc ` ({..<n} - {i - 1}))"
    by (simp add: prod.reindex)
  also have "Suc ` ({..<n} - {i - 1}) = insert n ?K"
  proof (intro set_eqI iffI)
    fix k assume "k \<in> Suc ` ({..<n} - {i - 1})"
    then obtain j where "k = Suc j" "j < n" "j \<noteq> i - 1" by auto
    then show "k \<in> insert n ?K" using i by auto
  next
    fix k assume "k \<in> insert n ?K"
    then have "1 \<le> k" "k \<le> n" "k \<noteq> i" using i by auto
    then have "k = Suc (k - 1)" "k - 1 < n" "k - 1 \<noteq> i - 1" using i by auto
    then show "k \<in> Suc ` ({..<n} - {i - 1})" by blast
  qed
  also have "prod ?g (insert n ?K) = ?g n * prod ?g ?K"
    by (rule prod.insert) auto
  finally have prev: "(\<Prod>j\<in>{..<n} - {i - 1}. (of_nat (i - 1) - of_nat j :: 'a)) =
        ?g n * prod ?g ?K" .
  have "{..<n} - {i} = insert 0 ?K" using i by auto
  then have "prod ?g ({..<n} - {i}) = prod ?g (insert 0 ?K)" by simp
  also have "\<dots> = ?g 0 * prod ?g ?K"
    by (rule prod.insert) auto
  finally have cur: "prod ?g ({..<n} - {i}) = of_nat i * prod ?g ?K" by simp
  have gn: "?g n = - of_nat (n - i)" using i by simp
  show ?thesis unfolding prev cur gn by (simp add: mult_ac)
qed

lemma lagrangeBasisOver_recurrence:
  fixes r :: "'a::field"
  assumes i: "1 \<le> i" "i < n"
    and inj: "inj_on (of_nat :: nat \<Rightarrow> 'a) {..<n}"
    and out: "r \<notin> of_nat ` {..<n}"
  shows "lagrangeBasisOver of_nat n (i - 1) r * (r - of_nat (i - 1)) * (- of_nat (n - i)) /
           ((r - of_nat i) * of_nat i) =
         lagrangeBasisOver of_nat n i r"
proof -
  let ?N = "\<lambda>k. \<Prod>j\<in>{..<n} - {k}. (r - of_nat j)"
  let ?D = "\<lambda>k. \<Prod>j\<in>{..<n} - {k}. (of_nat k - of_nat j :: 'a)"
  let ?W = "\<Prod>j<n. (r - of_nat j)"
  have L: "lagrangeBasisOver of_nat n k r = ?N k / ?D k" for k
    by (simp add: lagrangeBasisOver_def prod_dividef)
  have W: "?N k * (r - of_nat k) = ?W" if "k < n" for k
    using prod.remove[of "{..<n}" k "\<lambda>j. r - of_nat j"] that by (simp add: mult.commute)
  have D0: "?D k \<noteq> 0" if "k < n" for k
  proof -
    have "of_nat k - of_nat j \<noteq> (0::'a)" if "j \<in> {..<n} - {k}" for j
      using inj_onD[OF inj, of k j] that \<open>k < n\<close> by auto
    then show ?thesis by (simp add: prod_zero_iff)
  qed
  have ri: "r - of_nat i \<noteq> 0" using out i by auto
  have i0: "(of_nat i :: 'a) \<noteq> 0"
    using inj_onD[OF inj, of i 0] i by auto
  have Dstep: "?D i * (- of_nat (n - i)) = ?D (i - 1) * of_nat i"
    using i by (rule denominators_step)
  have i1: "i - 1 < n" using i by simp
  have "lagrangeBasisOver of_nat n (i - 1) r * (r - of_nat (i - 1)) * (- of_nat (n - i)) /
           ((r - of_nat i) * of_nat i) =
        ?W * (- of_nat (n - i)) / (?D (i - 1) * of_nat i * (r - of_nat i))"
    unfolding L using W[OF i1] by (simp add: mult_ac)
  also have "\<dots> = ?W * (- of_nat (n - i)) / (?D i * (- of_nat (n - i)) * (r - of_nat i))"
    unfolding Dstep ..
  also have "\<dots> = ?W / (?D i * (r - of_nat i))"
  proof -
    have "(- of_nat (n - i) :: 'a) \<noteq> 0"
      using Dstep D0[OF i1] i0 by auto
    then show ?thesis by simp
  qed
  also have "\<dots> = (?N i * (r - of_nat i)) / (?D i * (r - of_nat i))"
    by (simp only: W[OF i(2)])
  also have "\<dots> = ?N i / ?D i"
    using ri by simp
  finally show ?thesis unfolding L .
qed

section \<open>The recurrence step and the sweep\<close>

text \<open>
  Outside the domain, with \<open>1 \<le> i < n\<close>, the recurrence step passes both checks and
  divides by two nonzero field elements; fed with \<open>L\<^sub>i\<close> it returns \<open>L\<^sub>i\<^sub>+\<^sub>1\<close>. The two loops
  then carry the invariant that \<^verbatim>\<open>currentLagrangeBasis\<close> is \<open>L\<^sub>i\<close> at \<open>r\<close>.
\<close>

lemma next_value:
  fixes tb :: "'a::field \<Rightarrow> nat"
  assumes pf: "primeField p tb" and i: "1 \<le> i" "i < n" and out: "n \<le> tb r"
  shows "getNextLagrangeBasisPolynomialAtInput tb (int i) (int n) r previous =
         Inr (previous * (r - of_nat (i - 1)) * (- of_nat (n - i)) / ((r - of_nat i) * of_nat i))"
proof -
  have np: "n < p" and notin: "r \<notin> of_nat ` {..<n}"
    using primeField_outside[OF pf out] by auto
  have n1: "(of_int (int n - 1) :: 'a) = of_nat (n - 1)"
    using i by simp
  have "tb (of_nat (n - 1) :: 'a) = n - 1"
    using np by (intro primeField_small[OF pf]) simp
  then have le: "\<not> lessThanOrEqual_field tb r (int n - 1)"
    unfolding lessThanOrEqual_field_def n1 using out i by simp
  have ri: "r - of_int (int i) \<noteq> 0" using notin i by auto
  have "tb (of_nat i :: 'a) = i" using np i by (intro primeField_small[OF pf]) simp
  moreover have "tb (of_nat 0 :: 'a) = 0" using np by (intro primeField_small[OF pf]) simp
  ultimately have i0: "(of_int (int i) :: 'a) \<noteq> 0" using i by auto
  have a: "(of_int (int i - 1) :: 'a) = of_nat (i - 1)"
    using i by simp
  have b: "(of_int (- 1 * (int n - int i)) :: 'a) = - of_nat (n - i)"
    using i by simp
  have "getNextLagrangeBasisPolynomialAtInput tb (int i) (int n) r previous =
        Inr (previous * (r - of_int (int i - 1)) * of_int (- 1 * (int n - int i)) /
             (r - of_int (int i)) / of_int (int i))"
    unfolding getNextLagrangeBasisPolynomialAtInput_def div_field_def
    using le ri i0 i by simp
  then show ?thesis unfolding a b by (simp add: divide_divide_eq_left)
qed

lemma next_basis:
  fixes tb :: "'a::field \<Rightarrow> nat"
  assumes pf: "primeField p tb" and i: "Suc i < n" and out: "n \<le> tb r"
  shows "getNextLagrangeBasisPolynomialAtInput tb (int i + 1) (int n) r
           (lagrangeBasisReference n i r) = Inr (lagrangeBasisReference n (Suc i) r)"
proof -
  have np: "n < p" and notin: "r \<notin> of_nat ` {..<n}"
    using primeField_outside[OF pf out] by auto
  have inj: "inj_on (of_nat :: nat \<Rightarrow> 'a) {..<n}"
    using np by (intro primeField_inj_on[OF pf]) simp
  have e: "int i + 1 = int (Suc i)" by simp
  have one: "1 \<le> Suc i" by simp
  have "getNextLagrangeBasisPolynomialAtInput tb (int (Suc i)) (int n) r
          (lagrangeBasisOver of_nat n (Suc i - 1) r) = Inr (lagrangeBasisOver of_nat n (Suc i) r)"
    unfolding next_value[OF pf one i out] lagrangeBasisOver_recurrence[OF one i inj notin] ..
  then show ?thesis
    unfolding e lagrangeBasisReference_eq by simp
qed

lemma sumLoop_value:
  fixes tb :: "'a::field \<Rightarrow> nat"
  assumes pf: "primeField p tb" and out: "length message \<le> tb r"
    and cur: "i < length message \<Longrightarrow> b = lagrangeBasisReference (length message) i r"
  shows "sumLoop tb enc message r i result b =
         Inr (result + (\<Sum>k\<in>{i..<length message}.
                of_int (enc (message ! k)) * lagrangeBasisReference (length message) k r))"
  using cur
proof (induction "length message - i" arbitrary: i result b)
  case 0
  then have "\<not> i < length message" by simp
  then show ?case by (subst sumLoop.simps) simp
next
  case (Suc k)
  then have lt: "i < length message" by simp
  let ?n = "length message"
  let ?c = "of_int (enc (message ! i)) :: 'a"
  have b: "b = lagrangeBasisReference ?n i r" using Suc.prems lt by simp
  have k: "k = ?n - Suc i" using Suc.hyps(2) by simp
  have split: "{i..<?n} = insert i {Suc i..<?n}" using lt by auto
  show ?case
  proof (cases "Suc i < ?n")
    case True
    have nxt: "getNextLagrangeBasisPolynomialAtInput tb (int i + 1) (int ?n) r b =
               Inr (lagrangeBasisReference ?n (Suc i) r)"
      unfolding b using pf True out by (rule next_basis)
    have "sumLoop tb enc message r i result b =
          sumLoop tb enc message r (Suc i) (result + ?c * b) (lagrangeBasisReference ?n (Suc i) r)"
      using lt True nxt by (subst sumLoop.simps) (simp add: Let_def)
    also have "\<dots> = Inr (result + ?c * b + (\<Sum>k\<in>{Suc i..<?n}.
                of_int (enc (message ! k)) * lagrangeBasisReference ?n k r))"
      by (rule Suc.hyps(1)[OF k]) simp
    finally show ?thesis unfolding split b by (simp add: add.assoc)
  next
    case False
    have "sumLoop tb enc message r i result b =
          sumLoop tb enc message r (Suc i) (result + ?c * b) b"
      using lt False by (subst sumLoop.simps) (simp add: Let_def)
    also have "\<dots> = Inr (result + ?c * b + (\<Sum>k\<in>{Suc i..<?n}.
                of_int (enc (message ! k)) * lagrangeBasisReference ?n k r))"
      by (rule Suc.hyps(1)[OF k]) (use False in simp)
    finally show ?thesis unfolding split b by (simp add: add.assoc)
  qed
qed

lemma basisValues_value:
  fixes tb :: "'a::field \<Rightarrow> nat"
  assumes pf: "primeField p tb" and out: "n \<le> tb r"
    and cur: "i < n \<Longrightarrow> b = lagrangeBasisReference n i r"
  shows "basisValues tb n r i b = Inr (map (\<lambda>k. lagrangeBasisReference n k r) [i..<n])"
  using cur
proof (induction "n - i" arbitrary: i b)
  case 0
  then have "\<not> i < n" by simp
  then show ?case by (subst basisValues.simps) simp
next
  case (Suc k)
  then have lt: "i < n" by simp
  have b: "b = lagrangeBasisReference n i r" using Suc.prems lt by simp
  have k: "k = n - Suc i" using Suc.hyps(2) by simp
  have split: "[i..<n] = i # [Suc i..<n]" using lt by (simp add: upt_conv_Cons)
  show ?case
  proof (cases "Suc i < n")
    case True
    have nxt: "getNextLagrangeBasisPolynomialAtInput tb (int i + 1) (int n) r b =
               Inr (lagrangeBasisReference n (Suc i) r)"
      unfolding b using pf True out by (rule next_basis)
    have rest: "basisValues tb n r (Suc i) (lagrangeBasisReference n (Suc i) r) =
          Inr (map (\<lambda>k. lagrangeBasisReference n k r) [Suc i..<n])"
      by (rule Suc.hyps(1)[OF k]) simp
    show ?thesis
      using lt True nxt rest unfolding split b
      by (subst basisValues.simps) simp
  next
    case False
    have rest: "basisValues tb n r (Suc i) b =
          Inr (map (\<lambda>k. lagrangeBasisReference n k r) [Suc i..<n])"
      by (rule Suc.hyps(1)[OF k]) (use False in simp)
    show ?thesis
      using lt False rest unfolding split b
      by (subst basisValues.simps) simp
  qed
qed

section \<open>The evaluator outside the domain\<close>

lemma sweep_value:
  fixes tb :: "'a::field \<Rightarrow> nat"
  assumes pf: "primeField p tb" and ne: "message \<noteq> []" and out: "length message \<le> tb r"
  shows "getFastUnivariateLagrange tb enc message r = Inr (lagrangeReference enc message r)"
proof -
  let ?n = "length message"
  have n0: "0 < ?n" using ne by simp
  have np: "?n < p" using primeField_outside(1)[OF pf out] .
  have nolt: "\<not> lessThan_field tb r (int ?n)"
    unfolding lessThan_field_length[OF pf] using np out by simp
  have base: "getLagrangeBasisAt 0 (map (\<lambda>index. of_int (int index)) [0..<?n]) r =
              Inr (lagrangeBasisReference ?n 0 r)"
    using pf n0 by (rule getLagrangeBasisAt_value) (use np in simp)
  have loop: "sumLoop tb enc message r 0 0 (lagrangeBasisReference ?n 0 r) =
              Inr (lagrangeReference enc message r)"
    unfolding sumLoop_value[OF pf out refl] lagrangeReference_eq
    by (simp add: atLeast0LessThan)
  show ?thesis
    unfolding getFastUnivariateLagrange_def Let_def using ne nolt base loop by simp
qed

lemma sweepBasisValues_value:
  fixes tb :: "'a::field \<Rightarrow> nat"
  assumes pf: "primeField p tb" and n0: "0 < n" and out: "n \<le> tb r"
  shows "sweepBasisValues tb n r = Inr (map (\<lambda>k. lagrangeBasisReference n k r) [0..<n])"
proof -
  have np: "n < p" using primeField_outside(1)[OF pf out] .
  have base: "getLagrangeBasisAt 0 (map (\<lambda>index. of_int (int index)) [0..<n]) r =
              Inr (lagrangeBasisReference n 0 r)"
    using pf n0 by (rule getLagrangeBasisAt_value) (use np in simp)
  show ?thesis
    unfolding sweepBasisValues_def base using basisValues_value[OF pf out refl] by simp
qed

text \<open>
  \<open>sweepBasisValues\<close> is the trace of the evaluator: the result of the evaluator is the
  sum of the codes weighted by the basis values it lists.
\<close>

lemma sweep_is_sum_of_basisValues:
  fixes tb :: "'a::field \<Rightarrow> nat"
  assumes pf: "primeField p tb" and ne: "message \<noteq> []" and out: "length message \<le> tb r"
    and bs: "sweepBasisValues tb (length message) r = Inr bs"
  shows "getFastUnivariateLagrange tb enc message r =
         Inr (\<Sum>i<length message. of_int (enc (message ! i)) * bs ! i)"
proof -
  have "bs = map (\<lambda>k. lagrangeBasisReference (length message) k r) [0..<length message]"
    using sweepBasisValues_value[OF pf _ out] ne bs by simp
  then show ?thesis
    unfolding sweep_value[OF pf ne out] lagrangeReference_eq by simp
qed

text \<open>
  Claim C1. For every non-empty message and every field element \<open>r\<close> whose unsigned value
  is outside \<open>[0, n)\<close>, \<open>n\<close> the length of the message, the evaluator returns the value of
  the reference definition \<open>P(r) = \<Sum>\<^sub>i c\<^sub>i \<cdot> \<Prod>\<^sub>j\<^sub>\<noteq>\<^sub>i (r - j) / (i - j)\<close>: the sweep with the
  recurrence and the direct definition agree.
\<close>

theorem getFastUnivariateLagrange_refines_reference:
  assumes "primeField p toBigInt"
    and "message \<noteq> []"
    and "length message \<le> toBigInt r"
  shows "getFastUnivariateLagrange toBigInt asciiToNumber message r =
         Inr (lagrangeReference asciiToNumber message r)"
  using assms by (rule sweep_value)

theorem getFastUnivariateLagrange_refines_reference_witness:
  "primeField 257 toBigInt257 \<and> ''ABC'' \<noteq> [] \<and> length ''ABC'' \<le> toBigInt257 200 \<and>
   getFastUnivariateLagrange toBigInt257 charCode ''ABC'' 200 =
     Inr (lagrangeReference charCode ''ABC'' 200) \<and>
   lagrangeReference charCode ''ABC'' (200::gf257) = 8"
proof -
  have h: "length ''ABC'' \<le> toBigInt257 200"
    by code_simp
  have v: "lagrangeReference charCode ''ABC'' (200::gf257) = 8"
    by code_simp
  show ?thesis
    using getFastUnivariateLagrange_refines_reference[OF primeField_gf257 _ h, of charCode]
      h v primeField_gf257
    by simp
qed

text \<open>
  Claim C6. Partition of unity: for every \<open>n \<ge> 1\<close> and every field element \<open>r\<close> outside
  the domain \<open>[0, n)\<close>, the sweep produces \<open>n\<close> basis values, the base case followed by
  the \<open>n - 1\<close> values of the recurrence, and their sum is the one of the field.
\<close>

theorem sweepBasisValues_partition_of_unity:
  assumes "primeField p toBigInt"
    and "0 < n"
    and "n \<le> toBigInt r"
  shows "\<exists>bs. sweepBasisValues toBigInt n r = Inr bs \<and> length bs = n \<and> sum_list bs = 1"
proof -
  have np: "n < p" and notin: "r \<notin> of_nat ` {..<n}"
    using primeField_outside[OF assms(1,3)] by auto
  have inj: "inj_on (of_nat :: nat \<Rightarrow> 'a) {..<n}"
    using np by (intro primeField_inj_on[OF assms(1)]) simp
  let ?bs = "map (\<lambda>k. lagrangeBasisReference n k r) [0..<n]"
  have "sum_list ?bs = (\<Sum>i<n. lagrangeBasisOver of_nat n i r)"
    by (simp add: interv_sum_list_conv_sum_set_nat atLeast0LessThan lagrangeBasisReference_eq)
  also have "\<dots> = 1"
    using assms(2) inj notin by (rule lagrangeBasisOver_sum)
  finally have "sum_list ?bs = 1" .
  moreover have "sweepBasisValues toBigInt n r = Inr ?bs"
    using assms by (rule sweepBasisValues_value)
  ultimately show ?thesis by simp
qed

theorem sweepBasisValues_partition_of_unity_witness:
  "primeField 257 toBigInt257 \<and> 0 < (4::nat) \<and> 4 \<le> toBigInt257 77 \<and>
   sweepBasisValues toBigInt257 4 77 = Inr [118, 108, 127, 162] \<and>
   sum_list [118, 108, 127, 162 :: gf257] = 1"
proof -
  have h: "4 \<le> toBigInt257 77"
    by code_simp
  have v: "sweepBasisValues toBigInt257 4 77 = Inr [118, 108, 127, 162]"
    by code_simp
  have "\<exists>bs. sweepBasisValues toBigInt257 4 77 = Inr bs \<and> length bs = 4 \<and> sum_list bs = 1"
    using sweepBasisValues_partition_of_unity[OF primeField_gf257 _ h] by simp
  then have "sum_list [118, 108, 127, 162 :: gf257] = 1"
    unfolding v by simp
  then show ?thesis
    using h v primeField_gf257 by simp
qed

section \<open>The recurrence step on its own\<close>

lemma next_value_int:
  fixes tb :: "'a::field \<Rightarrow> nat"
  assumes pf: "primeField p tb" and i: "1 \<le> i" "i \<le> n - 1" and out: "n - 1 < int (tb r)"
  shows "getNextLagrangeBasisPolynomialAtInput tb i n r previous =
         Inr (previous * (r - of_int (i - 1)) * (- of_int (n - i)) / ((r - of_int i) * of_int i))"
proof -
  have ii: "int (nat i) = i" and nn: "int (nat n) = n" using i by auto
  have 1: "1 \<le> nat i" "nat i < nat n" "nat n \<le> tb r" using i out by auto
  have a: "(of_nat (nat i - 1) :: 'a) = of_int (i - 1)"
    using i by (simp add: of_nat_diff)
  have b: "(of_nat (nat n - nat i) :: 'a) = of_int (n - i)"
    using i by (simp add: of_nat_diff)
  have c: "(of_nat (nat i) :: 'a) = of_int i" using i by simp
  show ?thesis
    using next_value[OF pf 1, of previous] unfolding ii nn a b c .
qed

text \<open>
  Claim C4. For every \<open>i \<ge> 1\<close>, every domain size \<open>n\<close> with \<open>i \<le> n - 1\<close>, every field
  element \<open>r\<close> whose unsigned value is outside \<open>[0, n - 1]\<close> and every field element
  \<open>previous\<close>, the recurrence step returns
  \<open>previous \<cdot> (r - (i - 1)) \<cdot> (-(n - i)) / ((r - i) \<cdot> i)\<close>; in particular, from
  \<open>previous = L\<^sub>i\<^sub>-\<^sub>1(r)\<close> it returns \<open>L\<^sub>i(r)\<close>.
\<close>

theorem getNextLagrangeBasisPolynomialAtInput_formula:
  assumes "primeField p toBigInt"
    and "1 \<le> i"
    and "i \<le> n - 1"
    and "n - 1 < int (toBigInt r)"
  shows "getNextLagrangeBasisPolynomialAtInput toBigInt i n r previous =
           Inr (previous * (r - of_int (i - 1)) * (- of_int (n - i)) / ((r - of_int i) * of_int i))
         \<and> (previous = lagrangeBasisReference (nat n) (nat (i - 1)) r \<longrightarrow>
            getNextLagrangeBasisPolynomialAtInput toBigInt i n r previous =
              Inr (lagrangeBasisReference (nat n) (nat i) r))"
proof (intro conjI impI)
  show "getNextLagrangeBasisPolynomialAtInput toBigInt i n r previous =
        Inr (previous * (r - of_int (i - 1)) * (- of_int (n - i)) / ((r - of_int i) * of_int i))"
    using assms by (rule next_value_int)
next
  assume prev: "previous = lagrangeBasisReference (nat n) (nat (i - 1)) r"
  have s: "Suc (nat (i - 1)) = nat i" "int (nat (i - 1)) + 1 = i" "int (nat n) = n"
    using assms(2,3) by auto
  have "Suc (nat (i - 1)) < nat n" "nat n \<le> toBigInt r" using assms(2,3,4) by auto
  from next_basis[OF assms(1) this]
  show "getNextLagrangeBasisPolynomialAtInput toBigInt i n r previous =
        Inr (lagrangeBasisReference (nat n) (nat i) r)"
    unfolding prev s .
qed

theorem getNextLagrangeBasisPolynomialAtInput_formula_witness:
  "primeField 257 toBigInt257 \<and> (1::int) \<le> 2 \<and> (2::int) \<le> 4 - 1 \<and>
   (4::int) - 1 < int (toBigInt257 77) \<and>
   getNextLagrangeBasisPolynomialAtInput toBigInt257 2 4 77 108 = Inr 127 \<and>
   lagrangeBasisReference (nat 4) (nat (2 - 1)) (77::gf257) = 108 \<and>
   lagrangeBasisReference (nat 4) (nat 2) (77::gf257) = 127"
proof -
  have h: "(4::int) - 1 < int (toBigInt257 77)" by code_simp
  have a: "lagrangeBasisReference (nat 4) (nat (2 - 1)) (77::gf257) = 108" by code_simp
  have b: "lagrangeBasisReference (nat 4) (nat 2) (77::gf257) = 127" by code_simp
  have i: "(1::int) \<le> 2" "(2::int) \<le> 4 - 1" by simp_all
  have "108 = lagrangeBasisReference (nat 4) (nat (2 - 1)) (77::gf257) \<longrightarrow>
        getNextLagrangeBasisPolynomialAtInput toBigInt257 2 4 77 108 =
          Inr (lagrangeBasisReference (nat 4) (nat 2) 77)"
    using getNextLagrangeBasisPolynomialAtInput_formula[OF primeField_gf257 i h, of 108] by (rule conjunct2)
  then have "getNextLagrangeBasisPolynomialAtInput toBigInt257 2 4 77 108 = Inr 127"
    unfolding a b by simp
  then show ?thesis using h a b primeField_gf257 by simp
qed

lemma next_errors:
  "getNextLagrangeBasisPolynomialAtInput tb i n r previous = Inl e \<Longrightarrow>
   e = InvalidIndex \<or> e = DomainPoint \<or> e = DivisionByZero"
  unfolding getNextLagrangeBasisPolynomialAtInput_def div_field_def
  by (auto split: if_splits)

lemma next_InvalidIndex_iff:
  "getNextLagrangeBasisPolynomialAtInput tb i n r previous = Inl InvalidIndex \<longleftrightarrow> i < 1"
  unfolding getNextLagrangeBasisPolynomialAtInput_def div_field_def
  by (auto split: if_splits)

lemma next_DomainPoint_iff:
  fixes tb :: "'a::field \<Rightarrow> nat"
  assumes pf: "primeField p tb" and i: "1 \<le> i" and n: "1 \<le> n" "n \<le> int p"
  shows "getNextLagrangeBasisPolynomialAtInput tb i n r previous = Inl DomainPoint \<longleftrightarrow>
         int (tb r) \<le> n - 1"
proof -
  have "(of_int (n - 1) :: 'a) = of_nat (nat (n - 1))" using n by simp
  moreover have "tb (of_nat (nat (n - 1)) :: 'a) = nat (n - 1)"
    using n by (intro primeField_small[OF pf]) auto
  ultimately have le: "lessThanOrEqual_field tb r (n - 1) \<longleftrightarrow> int (tb r) \<le> n - 1"
    unfolding lessThanOrEqual_field_def using n by auto
  have "tb (of_nat 0 :: 'a) = 0"
    using primeField_gt1[OF pf] by (intro primeField_small[OF pf]) simp
  then have ge: "greaterThanOrEqual_field tb r 0"
    unfolding greaterThanOrEqual_field_def by simp
  show ?thesis
    unfolding getNextLagrangeBasisPolynomialAtInput_def div_field_def
    using i le ge by (auto split: if_splits)
qed

text \<open>
  Claim C5, as amended. The recurrence step raises the invalid-index error if and only if
  \<open>i < 1\<close>; when \<open>i \<ge> 1\<close> and the domain size \<open>n\<close> is at least 1 and at most the modulus, it
  raises the domain-point error if and only if the unsigned value of \<open>r\<close> lies in
  \<open>[0, n - 1]\<close>; and when \<open>1 \<le> i \<le> n - 1\<close> and \<open>r\<close> is outside \<open>[0, n - 1]\<close> it returns
  normally.
\<close>

theorem getNextLagrangeBasisPolynomialAtInput_errors:
  assumes "primeField p toBigInt"
  shows "(getNextLagrangeBasisPolynomialAtInput toBigInt i n r previous = Inl InvalidIndex
            \<longleftrightarrow> i < 1)
       \<and> (1 \<le> i \<and> 1 \<le> n \<and> n \<le> int p \<longrightarrow>
            (getNextLagrangeBasisPolynomialAtInput toBigInt i n r previous = Inl DomainPoint
               \<longleftrightarrow> int (toBigInt r) \<le> n - 1))
       \<and> (1 \<le> i \<and> i \<le> n - 1 \<and> n - 1 < int (toBigInt r) \<longrightarrow>
            (\<exists>v. getNextLagrangeBasisPolynomialAtInput toBigInt i n r previous = Inr v))"
  using next_InvalidIndex_iff next_DomainPoint_iff[OF assms] next_value_int[OF assms]
  by blast

theorem getNextLagrangeBasisPolynomialAtInput_errors_witness:
  "primeField 257 toBigInt257
   \<and> getNextLagrangeBasisPolynomialAtInput toBigInt257 0 2 2 1 = Inl InvalidIndex
   \<and> getNextLagrangeBasisPolynomialAtInput toBigInt257 1 2 1 1 = Inl DomainPoint
   \<and> (\<exists>v. getNextLagrangeBasisPolynomialAtInput toBigInt257 1 2 2 1 = Inr v)"
proof -
  have a: "int (toBigInt257 1) \<le> 2 - 1" by code_simp
  have b: "(2::int) - 1 < int (toBigInt257 2)" by code_simp
  have 1: "getNextLagrangeBasisPolynomialAtInput toBigInt257 0 2 2 1 = Inl InvalidIndex"
    using getNextLagrangeBasisPolynomialAtInput_errors[OF primeField_gf257, of 0 2 2 1] by simp
  have 2: "getNextLagrangeBasisPolynomialAtInput toBigInt257 1 2 1 1 = Inl DomainPoint"
    using getNextLagrangeBasisPolynomialAtInput_errors[OF primeField_gf257, of 1 2 1 1] a by simp
  have 3: "\<exists>v. getNextLagrangeBasisPolynomialAtInput toBigInt257 1 2 2 1 = Inr v"
    using getNextLagrangeBasisPolynomialAtInput_errors[OF primeField_gf257, of 1 2 2 1] b by simp
  show ?thesis using 1 2 3 primeField_gf257 by simp
qed

text \<open>
  The claim as it is written, with no bound on \<open>i\<close> and \<open>n\<close>, fails. With \<open>i = 5\<close>,
  \<open>n = 2\<close> and \<open>r = 5\<close> both checks pass (\<open>i \<ge> 1\<close>, and 5 is outside \<open>[0, 1]\<close>) and the
  division by \<open>r - i = 0\<close> raises: the step does not return normally. With \<open>n = 0\<close> the
  bound \<open>n - 1\<close> becomes the field element \<open>-1\<close>, the largest representative, and the
  step raises the domain-point error although the range \<open>[0, -1]\<close> is empty.
\<close>

theorem getNextLagrangeBasisPolynomialAtInput_errors_counterexample:
  "toBigInt257 5 = 5
   \<and> getNextLagrangeBasisPolynomialAtInput toBigInt257 5 2 5 1 = Inl DivisionByZero
   \<and> getNextLagrangeBasisPolynomialAtInput toBigInt257 1 0 5 1 = Inl DomainPoint"
  by code_simp

section \<open>The evaluator on every input\<close>

text \<open>
  Claim C3. For every non-empty message and every field element \<open>r\<close> the evaluator returns
  a field element and raises no error. Every error of the model is a value that the
  callers pass on unchanged, so a result \<open>Inr v\<close> says that no division on the path taken
  had a zero divisor, whether by \<open>r - i\<close> or \<open>i\<close> in the recurrence or by \<open>x\<^sub>i - x\<^sub>j\<close> in
  the base case, and that neither defensive check of the recurrence fired. The length
  of a JavaScript string is below the 255-bit modulus of the field library.
\<close>

theorem getFastUnivariateLagrange_returns:
  assumes "primeField p toBigInt" and "message \<noteq> []" and "length message < p"
  shows "\<exists>v. getFastUnivariateLagrange toBigInt asciiToNumber message r = Inr v"
proof (cases "toBigInt r < length message")
  case True
  then show ?thesis using shortCircuit_value[OF assms(1,3)] by blast
next
  case False
  then have "length message \<le> toBigInt r" by simp
  then show ?thesis using sweep_value[OF assms(1,2)] by blast
qed

theorem getFastUnivariateLagrange_returns_witness:
  "primeField 257 toBigInt257 \<and> ''AB'' \<noteq> [] \<and> length ''AB'' < 257 \<and>
   getFastUnivariateLagrange toBigInt257 charCode ''AB'' 2 = Inr 67"
proof -
  have v: "getFastUnivariateLagrange toBigInt257 charCode ''AB'' 2 = Inr 67" by code_simp
  have "\<exists>v. getFastUnivariateLagrange toBigInt257 charCode ''AB'' 2 = Inr v"
    using getFastUnivariateLagrange_returns[OF primeField_gf257, of "''AB''" charCode 2] by simp
  then show ?thesis using v primeField_gf257 by simp
qed

text \<open>
  Claim C7. For a message \<open>[x]\<close> of one symbol and every field element \<open>r\<close>, the domain
  point 0 or any other, the evaluator returns the field element of the code of \<open>x\<close>:
  outside the domain the one basis value is the empty product.
\<close>

theorem getFastUnivariateLagrange_single_symbol:
  assumes "primeField p toBigInt"
  shows "getFastUnivariateLagrange toBigInt asciiToNumber [x] r = Inr (of_int (asciiToNumber x))"
proof (cases "toBigInt r < length [x]")
  case True
  have "length [x] < p" using primeField_gt1[OF assms] by simp
  from shortCircuit_value[OF assms this True] True show ?thesis by simp
next
  case False
  then have "length [x] \<le> toBigInt r" by simp
  from sweep_value[OF assms _ this, of asciiToNumber] show ?thesis
    by (simp add: lagrangeReference_def lagrangeBasisReference_def)
qed

theorem getFastUnivariateLagrange_single_symbol_witness:
  "primeField 257 toBigInt257 \<and>
   getFastUnivariateLagrange toBigInt257 charCode ''Z'' 0 = Inr 90 \<and>
   getFastUnivariateLagrange toBigInt257 charCode ''Z'' 5 = Inr 90"
proof -
  have c: "(of_int (charCode CHR ''Z'') :: gf257) = 90" by code_simp
  show ?thesis
    using getFastUnivariateLagrange_single_symbol[OF primeField_gf257, of charCode "CHR ''Z''" 0]
      getFastUnivariateLagrange_single_symbol[OF primeField_gf257, of charCode "CHR ''Z''" 5] c primeField_gf257
    by simp
qed

text \<open>
  Claim C10. On the short-circuit path the result depends on the selected symbol only:
  for two messages of the same length \<open>n \<ge> 1\<close> and \<open>r\<close> with unsigned value below \<open>n\<close>,
  equal symbols at index \<open>r\<close> give equal results.
\<close>

theorem getFastUnivariateLagrange_shortCircuit_noninterference:
  assumes "primeField p toBigInt"
    and "length message1 = n" and "length message2 = n"
    and "1 \<le> n" and "n < p"
    and "toBigInt r < n"
    and "message1 ! toBigInt r = message2 ! toBigInt r"
  shows "getFastUnivariateLagrange toBigInt asciiToNumber message1 r =
         getFastUnivariateLagrange toBigInt asciiToNumber message2 r"
  using shortCircuit_value[OF assms(1), of message1 r asciiToNumber]
    shortCircuit_value[OF assms(1), of message2 r asciiToNumber] assms
  by simp

theorem getFastUnivariateLagrange_shortCircuit_noninterference_witness:
  "primeField 257 toBigInt257 \<and> length ''AB'' = 2 \<and> length ''ZB'' = 2 \<and> (1::nat) \<le> 2 \<and>
   (2::nat) < 257 \<and> toBigInt257 1 < 2 \<and> ''AB'' ! toBigInt257 1 = ''ZB'' ! toBigInt257 1 \<and>
   getFastUnivariateLagrange toBigInt257 charCode ''AB'' 1 =
   getFastUnivariateLagrange toBigInt257 charCode ''ZB'' 1"
proof -
  have t: "toBigInt257 1 = 1" by code_simp
  have h: "toBigInt257 1 < 2" "''AB'' ! toBigInt257 1 = ''ZB'' ! toBigInt257 1"
    unfolding t by simp_all
  have "getFastUnivariateLagrange toBigInt257 charCode ''AB'' 1 =
        getFastUnivariateLagrange toBigInt257 charCode ''ZB'' 1"
    using getFastUnivariateLagrange_shortCircuit_noninterference[OF primeField_gf257 _ _ _ _ h, of charCode] by simp
  then show ?thesis using h primeField_gf257 by simp
qed

text \<open>
  The scenario of the spec for the message \<^verbatim>\<open>AB\<close>: the values at 0, 1 and 2 are 65, 66
  and \<open>65 \<cdot> (-1) + 66 \<cdot> 2 = 67\<close>, with the basis values \<open>-1\<close> and 2 at 2.
\<close>

lemma scenario_AB:
  "getFastUnivariateLagrange toBigInt257 charCode ''AB'' 0 = Inr 65"
  "getFastUnivariateLagrange toBigInt257 charCode ''AB'' 1 = Inr 66"
  "getFastUnivariateLagrange toBigInt257 charCode ''AB'' 2 = Inr 67"
  "sweepBasisValues toBigInt257 2 2 = Inr [- 1, 2]"
  by code_simp+

section \<open>Reads of the message stay in bounds\<close>

lemma basisLoop_in_bounds:
  assumes "i < length xs"
  shows "basisLoop i xs r j result \<noteq> Inl IndexOutOfRange"
proof (induction "length xs - j" arbitrary: j result)
  case 0
  then have "\<not> j < length xs" by simp
  then show ?case by (subst basisLoop.simps) simp
next
  case (Suc k)
  then have lt: "j < length xs" and k: "k = length xs - Suc j" by simp_all
  show ?case
  proof (cases "i = j")
    case True
    then show ?thesis
      using lt Suc.hyps(1)[OF k] by (subst basisLoop.simps) simp
  next
    case False
    then show ?thesis
      using lt assms Suc.hyps(1)[OF k]
      by (subst basisLoop.simps) (simp add: div_field_def)
  qed
qed

lemma sumLoop_in_bounds:
  "sumLoop tb enc message r i result b \<noteq> Inl IndexOutOfRange"
proof (induction "length message - i" arbitrary: i result b)
  case 0
  then have "\<not> i < length message" by simp
  then show ?case by (subst sumLoop.simps) simp
next
  case (Suc k)
  then have lt: "i < length message" and k: "k = length message - Suc i" by simp_all
  show ?case
  proof (cases "getNextLagrangeBasisPolynomialAtInput tb (int i + 1) (int (length message)) r b")
    case (Inl e)
    then have "e \<noteq> IndexOutOfRange" using next_errors[OF Inl] by auto
    then show ?thesis
      using lt Inl Suc.hyps(1)[OF k]
      by (subst sumLoop.simps) (simp add: Let_def)
  next
    case (Inr v)
    then show ?thesis
      using lt Suc.hyps(1)[OF k]
      by (subst sumLoop.simps) (simp add: Let_def)
  qed
qed

text \<open>
  Claim C9. Whenever the short-circuit is taken, the index read from \<open>r\<close> is below the
  length of the message, and the evaluator never reads the message, or the array of
  interpolation points, outside its bounds: the out-of-range error is never its result.
  This holds of a message of any length.
\<close>

theorem getFastUnivariateLagrange_index_in_bounds:
  assumes "primeField p toBigInt"
  shows "(lessThan_field toBigInt r (int (length message)) \<longrightarrow> toBigInt r < length message)
       \<and> getFastUnivariateLagrange toBigInt asciiToNumber message r \<noteq> Inl IndexOutOfRange"
proof
  have le: "length message mod p \<le> length message" by simp
  show idx: "lessThan_field toBigInt r (int (length message)) \<longrightarrow> toBigInt r < length message"
    unfolding lessThan_field_length[OF assms] using le by linarith
  show "getFastUnivariateLagrange toBigInt asciiToNumber message r \<noteq> Inl IndexOutOfRange"
  proof (cases "message = []")
    case True
    then show ?thesis by (simp add: getFastUnivariateLagrange_def)
  next
    case False
    then have pos: "0 < length (map (\<lambda>index. of_int (int index) :: 'a) [0..<length message])"
      by simp
    show ?thesis
      unfolding getFastUnivariateLagrange_def Let_def getLagrangeBasisAt_def
      using idx False basisLoop_in_bounds[OF pos, of r 0 1]
        sumLoop_in_bounds[of toBigInt asciiToNumber message r 0 0]
      by (auto split: sum.splits)
  qed
qed

theorem getFastUnivariateLagrange_index_in_bounds_witness:
  "primeField 257 toBigInt257 \<and> lessThan_field toBigInt257 1 (int (length ''AB'')) \<and>
   toBigInt257 1 < length ''AB'' \<and>
   getFastUnivariateLagrange toBigInt257 charCode ''AB'' 1 \<noteq> Inl IndexOutOfRange"
proof -
  have h: "lessThan_field toBigInt257 1 (int (length ''AB''))" by code_simp
  show ?thesis
    using getFastUnivariateLagrange_index_in_bounds[OF primeField_gf257, of 1 "''AB''" charCode] h primeField_gf257 by blast
qed

end
